theory Spec2Isabelle
  imports Complex_Main "HOL-Library.Product_Lexorder"
begin

section \<open>Errors raised by the interpreter and by NumPy\<close>

text \<open>
  \<^verbatim>\<open>plot.py\<close> raises nothing itself: every failure is an exception of a NumPy or
  built-in call. Each constructor names the call that raises it.
\<close>

datatype error =
    NegativeDimensions    \<comment> \<open>ValueError of \<^verbatim>\<open>np.ones(n)\<close>, \<^verbatim>\<open>n < 0\<close>: negative dimensions are not allowed\<close>
  | ConvolveAEmpty        \<comment> \<open>ValueError of \<^verbatim>\<open>np.convolve\<close>: a cannot be empty\<close>
  | ConvolveVEmpty        \<comment> \<open>ValueError of \<^verbatim>\<open>np.convolve\<close>: v cannot be empty\<close>
  | ZeroSizeReduction     \<comment> \<open>ValueError of \<^verbatim>\<open>np.max([])\<close>: zero-size array to reduction operation\<close>
  | InhomogeneousShape    \<comment> \<open>ValueError of \<^verbatim>\<open>np.array\<close> on arrays of different shapes\<close>
  | UnsizedObject         \<comment> \<open>TypeError of \<^verbatim>\<open>len\<close> on a 0-dimensional array\<close>
  | IndexOutOfBounds      \<comment> \<open>IndexError of \<^verbatim>\<open>a[i]\<close>\<close>
  | AxisOutOfBounds       \<comment> \<open>AxisError of a reduction along axis 0 of a 0-dimensional array\<close>

section \<open>The smoother: \<^verbatim>\<open>smooth_reward_curve\<close>\<close>

text \<open>
  The arithmetic of the array elements is left open: the definitions use only the
  operations \<open>0\<close>, \<open>1\<close>, \<open>+\<close>, \<open>*\<close> and \<open>/\<close> of the element type and assume no law
  about them. The products under a window are added from left to right; NumPy may add
  them in another order, which gives the same sum in exact arithmetic and can give
  another one in binary64. The theorems stated for every element type are about
  lengths, failures and windows of one entry, where no two products are added; a
  theorem about a sum of several entries names the arithmetic it is stated for.
\<close>

text \<open>\<^verbatim>\<open>np.ones(n)\<close> for an integer \<open>n\<close>.\<close>

definition np_ones :: "int \<Rightarrow> error + 'a::one list" where
  "np_ones n = (if n < 0 then Inl NegativeDimensions else Inr (replicate (nat n) 1))"

text \<open>\<^verbatim>\<open>np.ones_like(y)\<close> for a one-dimensional \<open>y\<close>.\<close>

definition np_ones_like :: "'a list \<Rightarrow> 'a::one list" where
  "np_ones_like y = replicate (length y) 1"

text \<open>
  The inner product NumPy's correlation computes for one output position: the sum of
  the products of the overlapping entries, here taken from \<open>0\<close> and from left to
  right. NumPy does not fix the order of the additions (its inner product may run
  through BLAS or in vector lanes), so in binary64 the last bit of a sum of three or
  more different products is not determined by this definition; the exact sum is.
\<close>

definition dot :: "'a list \<Rightarrow> 'a list \<Rightarrow> 'a::{zero,plus,times}" where
  "dot xs ys = foldl (\<lambda>s (x, y). s + x * y) 0 (zip xs ys)"

text \<open>
  \<^verbatim>\<open>np.correlate(a, v, mode='same')\<close> for \<open>length v \<le> length a\<close>: the output has the
  length of \<open>a\<close>; with \<open>n_left = length v div 2\<close>, output \<open>i\<close> is the inner product of
  \<open>v\<close> with \<open>a\<close> shifted so that \<open>v ! n_left\<close> meets \<open>a ! i\<close>, over the positions where both
  exist (nothing is added for the positions past either end).
\<close>

definition correlate_same :: "'a list \<Rightarrow> 'a list \<Rightarrow> 'a::{zero,plus,times} list" where
  "correlate_same a v =
     (let n_left = length v div 2
      in map (\<lambda>i. dot (drop (i - n_left) a) (drop (n_left - i) v)) [0..<length a])"

text \<open>
  \<^verbatim>\<open>np.convolve(a, v, mode='same')\<close>: the arguments are swapped when \<open>v\<close> is the longer
  one, an empty argument is refused, and the result is the correlation of the longer
  with the reversed shorter argument. Its length is that of the longer argument.
\<close>

definition np_convolve_same :: "'a list \<Rightarrow> 'a list \<Rightarrow> error + 'a::{zero,plus,times} list" where
  "np_convolve_same a v =
     (let (a', v') = (if length v > length a then (v, a) else (a, v))
      in if length a' = 0 then Inl ConvolveAEmpty
         else if length v' = 0 then Inl ConvolveVEmpty
         else Inr (correlate_same a' (rev v')))"

text \<open>
  \<^verbatim>\<open>int(np.ceil(len_m / 100))\<close>: the ceiling of the quotient, as an integer. Python
  forms the quotient as a float; for an integer of the size of an array length its
  ceiling is the ceiling of the exact quotient.
\<close>

definition halfwidth :: "int \<Rightarrow> int" where
  "halfwidth len_m = - ((- len_m) div 100)"

text \<open>
  \<^verbatim>\<open>
  def smooth_reward_curve(x, y, padding, a_range=None):
      if a_range is not None:
          len_m = a_range
      else:
          len_m = len(x)
      halfwidth = int(np.ceil(len_m / 100))
      k = halfwidth
      xsmoo = x
      ysmoo = np.convolve(y, np.ones(padding * k + 1), mode='same')
              / np.convolve(np.ones_like(y), np.ones(padding * k + 1), mode='same')
      return xsmoo, ysmoo
  \<close>
  \<open>x\<close> and \<open>y\<close> are one-dimensional arrays, \<open>padding\<close> an integer and \<open>a_range\<close> an
  integer or \<^verbatim>\<open>None\<close>. The two convolutions have the same length, so the quotient is
  taken entry by entry.
\<close>

text \<open>
  The width \<^verbatim>\<open>padding * k + 1\<close> of the window, which the code passes to \<^verbatim>\<open>np.ones\<close> for
  both convolutions. It is named here to state the properties of the smoother.
\<close>

definition window_width :: "'b list \<Rightarrow> int \<Rightarrow> int option \<Rightarrow> int" where
  "window_width x padding a_range =
     (let len_m = (case a_range of Some r \<Rightarrow> r | None \<Rightarrow> int (length x));
          k = halfwidth len_m
      in padding * k + 1)"

definition smooth_reward_curve ::
  "'b list \<Rightarrow> 'a list \<Rightarrow> int \<Rightarrow> int option \<Rightarrow> error + ('b list \<times> 'a::{zero,one,plus,times,inverse} list)" where
  "smooth_reward_curve x y padding a_range =
     (let len_m = (case a_range of Some r \<Rightarrow> r | None \<Rightarrow> int (length x));
          k = halfwidth len_m;
          xsmoo = x
      in case np_ones (padding * k + 1) of Inl e \<Rightarrow> Inl e | Inr ones \<Rightarrow>
         (case np_convolve_same y ones of Inl e \<Rightarrow> Inl e | Inr num \<Rightarrow>
         (case np_ones (padding * k + 1) of Inl e \<Rightarrow> Inl e | Inr ones' \<Rightarrow>
         (case np_convolve_same (np_ones_like y) ones' of Inl e \<Rightarrow> Inl e | Inr den \<Rightarrow>
            Inr (xsmoo, map2 (/) num den)))))"

text \<open>
  The positions of a signal of \<open>n\<close> entries under a window of \<open>w\<close> entries at output
  position \<open>i\<close>, in ascending order: position \<open>j\<close> meets entry \<open>j + w div 2 - i\<close> of the
  window, which must exist. Near either end of the signal fewer than \<open>w\<close> positions
  are left. The correlation sums over exactly these positions
  (\<open>correlate_same_window\<close>); the definition is used to state how many they are.
\<close>

definition under_window :: "nat \<Rightarrow> nat \<Rightarrow> nat \<Rightarrow> nat list" where
  "under_window n w i = filter (\<lambda>j. i \<le> j + w div 2 \<and> j + w div 2 < i + w) [0..<n]"

section \<open>Numbers and arrays\<close>

text \<open>
  A floating-point entry is not-a-number, a finite number or one of the two
  infinities. The arithmetic follows IEEE 754 on the infinities and on not-a-number
  (not-a-number is absorbing; \<open>inf - inf\<close>, \<open>0 * inf\<close>, \<open>inf / inf\<close> and \<open>0 / 0\<close>
  are not-a-number; a non-zero number over zero is an infinity). On finite numbers it
  is exact: rounding and overflow are not modelled, and zero has no sign. No theorem
  below is about a sum, product or quotient that binary64 would round, except where it
  says exact arithmetic.
\<close>

datatype float = NaN | Finite real | PosInf | NegInf

text \<open>The infinity with the sign of \<open>s\<close>; not-a-number for \<open>s = 0\<close>.\<close>

definition signed_inf :: "real \<Rightarrow> float" where
  "signed_inf s = (if s = 0 then NaN else if 0 < s then PosInf else NegInf)"

fun negate :: "float \<Rightarrow> float" where
  "negate NaN = NaN"
| "negate (Finite a) = Finite (- a)"
| "negate PosInf = NegInf"
| "negate NegInf = PosInf"

instantiation float :: "{zero,one,plus,minus,times,inverse}"
begin

definition zero_float :: float where
  "zero_float = Finite 0"

definition one_float :: float where
  "one_float = Finite 1"

fun plus_float :: "float \<Rightarrow> float \<Rightarrow> float" where
  "plus_float (Finite a) (Finite b) = Finite (a + b)"
| "plus_float NaN _ = NaN"
| "plus_float _ NaN = NaN"
| "plus_float PosInf NegInf = NaN"
| "plus_float NegInf PosInf = NaN"
| "plus_float PosInf _ = PosInf"
| "plus_float _ PosInf = PosInf"
| "plus_float NegInf _ = NegInf"
| "plus_float _ NegInf = NegInf"

definition minus_float :: "float \<Rightarrow> float \<Rightarrow> float" where
  "minus_float a b = a + negate b"

fun times_float :: "float \<Rightarrow> float \<Rightarrow> float" where
  "times_float (Finite a) (Finite b) = Finite (a * b)"
| "times_float NaN _ = NaN"
| "times_float _ NaN = NaN"
| "times_float PosInf (Finite b) = signed_inf b"
| "times_float NegInf (Finite b) = signed_inf (- b)"
| "times_float (Finite a) PosInf = signed_inf a"
| "times_float (Finite a) NegInf = signed_inf (- a)"
| "times_float PosInf PosInf = PosInf"
| "times_float NegInf NegInf = PosInf"
| "times_float PosInf NegInf = NegInf"
| "times_float NegInf PosInf = NegInf"

fun divide_float :: "float \<Rightarrow> float \<Rightarrow> float" where
  "divide_float (Finite a) (Finite b) = (if b = 0 then signed_inf a else Finite (a / b))"
| "divide_float NaN _ = NaN"
| "divide_float _ NaN = NaN"
| "divide_float (Finite a) _ = Finite 0"
| "divide_float PosInf (Finite b) = (if 0 \<le> b then PosInf else NegInf)"
| "divide_float NegInf (Finite b) = (if 0 \<le> b then NegInf else PosInf)"
| "divide_float _ _ = NaN"

definition inverse_float :: "float \<Rightarrow> float" where
  "inverse_float a = Finite 1 div a"

instance ..

end

text \<open>
  Where a claim turns on rounding, the entries are binary64 numbers proper: a finite
  value is a rational, and every sum, product and quotient is rounded to the nearest
  number with a significand of 53 bits, ties to the even significand. Values are taken
  in the normal range (no overflow to infinity, no gradual underflow), and a quotient by
  zero is not modelled; the smoother never forms one.
\<close>

function bit_length :: "int \<Rightarrow> int" where
  "bit_length n = (if n \<le> 0 then 0 else 1 + bit_length (n div 2))"
  by pat_completeness auto
termination
  by (relation "measure nat") auto

declare bit_length.simps [simp del]

definition pow2 :: "int \<Rightarrow> rat" where
  "pow2 e = (if 0 \<le> e then 2 ^ nat e else 1 / 2 ^ nat (- e))"

text \<open>The exponent of a positive rational: the \<open>d\<close> with \<open>2 ^ d \<le> x < 2 ^ (d + 1)\<close>.\<close>

definition floor_log2 :: "rat \<Rightarrow> int" where
  "floor_log2 x =
     (let (p, q) = quotient_of x;
          d = bit_length p - bit_length q
      in if pow2 d \<le> x then d else d - 1)"

definition round_half_even :: "rat \<Rightarrow> int" where
  "round_half_even r =
     (let f = \<lfloor>r\<rfloor>; d = r - of_int f
      in if d < 1 / 2 then f else if 1 / 2 < d then f + 1 else if even f then f else f + 1)"

definition round_binary64 :: "rat \<Rightarrow> rat" where
  "round_binary64 x =
     (if x = 0 then 0
      else let e = floor_log2 \<bar>x\<bar> - 52
           in sgn x * of_int (round_half_even (\<bar>x\<bar> / pow2 e)) * pow2 e)"

datatype binary64 = Binary64 rat

instantiation binary64 :: "{zero,one,plus,times,inverse}"
begin

definition zero_binary64 :: binary64 where
  "zero_binary64 = Binary64 0"

definition one_binary64 :: binary64 where
  "one_binary64 = Binary64 1"

fun plus_binary64 :: "binary64 \<Rightarrow> binary64 \<Rightarrow> binary64" where
  "plus_binary64 (Binary64 a) (Binary64 b) = Binary64 (round_binary64 (a + b))"

fun times_binary64 :: "binary64 \<Rightarrow> binary64 \<Rightarrow> binary64" where
  "times_binary64 (Binary64 a) (Binary64 b) = Binary64 (round_binary64 (a * b))"

fun divide_binary64 :: "binary64 \<Rightarrow> binary64 \<Rightarrow> binary64" where
  "divide_binary64 (Binary64 a) (Binary64 b) = Binary64 (round_binary64 (a / b))"

definition inverse_binary64 :: "binary64 \<Rightarrow> binary64" where
  "inverse_binary64 a = Binary64 1 div a"

instance ..

end

text \<open>
  An n-dimensional array as NumPy stores it: its shape and its entries in row-major
  order. A one-dimensional array of \<open>n\<close> entries has the shape \<open>[n]\<close>.
\<close>

record 'a ndarray =
  shape :: "nat list"
  data :: "'a list"

definition array1 :: "'a list \<Rightarrow> 'a ndarray" where
  "array1 xs = \<lparr>shape = [length xs], data = xs\<rparr>"

definition wf_array :: "'a ndarray \<Rightarrow> bool" where
  "wf_array a = (length (data a) = prod_list (shape a))"

text \<open>\<^verbatim>\<open>len(x)\<close>: the first dimension; a 0-dimensional array has none.\<close>

definition py_len :: "'a ndarray \<Rightarrow> error + nat" where
  "py_len x = (case shape x of [] \<Rightarrow> Inl UnsizedObject | n # _ \<Rightarrow> Inr n)"

text \<open>\<^verbatim>\<open>[len(x) for x in xs]\<close>: the first failure ends the comprehension.\<close>

fun lens :: "'a ndarray list \<Rightarrow> error + nat list" where
  "lens [] = Inr []"
| "lens (x # xs) =
     (case py_len x of Inl e \<Rightarrow> Inl e | Inr n \<Rightarrow>
        (case lens xs of Inl e \<Rightarrow> Inl e | Inr ns \<Rightarrow> Inr (n # ns)))"

text \<open>\<^verbatim>\<open>np.max\<close> of a list of lengths: an empty list has no maximum.\<close>

definition np_max :: "nat list \<Rightarrow> error + nat" where
  "np_max ns = (case ns of [] \<Rightarrow> Inl ZeroSizeReduction | n # rest \<Rightarrow> Inr (fold max rest n))"

text \<open>\<^verbatim>\<open>np.ones(shp) * v\<close>: every entry is the product \<open>1 * v\<close>.\<close>

definition ones_times :: "nat list \<Rightarrow> 'a \<Rightarrow> 'a::{one,times} ndarray" where
  "ones_times shp v = \<lparr>shape = shp, data = map (\<lambda>e. e * v) (replicate (prod_list shp) 1)\<rparr>"

text \<open>
  \<^verbatim>\<open>np.concatenate([x, p], axis=0)\<close> for two arrays of at least one dimension that agree
  on the dimensions after the first: in row-major order the entries of \<open>p\<close> follow those
  of \<open>x\<close>.
\<close>

definition concatenate0 :: "'a ndarray \<Rightarrow> 'a ndarray \<Rightarrow> 'a ndarray" where
  "concatenate0 x p =
     \<lparr>shape = (case (shape x, shape p) of
                 (n # rest, m # _) \<Rightarrow> (n + m) # rest
               | _ \<Rightarrow> shape x),
      data = data x @ data p\<rparr>"

text \<open>
  \<^verbatim>\<open>np.array(rows)\<close> for a list of arrays: arrays of one shape are stacked along a new
  first axis; arrays of different shapes are refused.
\<close>

definition np_array :: "'a ndarray list \<Rightarrow> error + 'a ndarray" where
  "np_array rows =
     (case rows of
        [] \<Rightarrow> Inr \<lparr>shape = [0], data = []\<rparr>
      | r # rest \<Rightarrow>
          if list_all (\<lambda>r'. shape r' = shape r) rest
          then Inr \<lparr>shape = length rows # shape r, data = concat (map data rows)\<rparr>
          else Inl InhomogeneousShape)"

text \<open>
  \<^verbatim>\<open>a[i]\<close> for an integer \<open>i\<close>: the \<open>i\<close>-th block along the first axis; a negative
  index counts from the end.
\<close>

definition np_index :: "'a ndarray \<Rightarrow> int \<Rightarrow> error + 'a ndarray" where
  "np_index a i =
     (case shape a of
        [] \<Rightarrow> Inl IndexOutOfBounds
      | n # rest \<Rightarrow>
          (let j = (if i < 0 then i + int n else i); m = prod_list rest
           in if 0 \<le> j \<and> j < int n
              then Inr \<lparr>shape = rest, data = take m (drop (nat j * m) (data a))\<rparr>
              else Inl IndexOutOfBounds))"

section \<open>The aligner: \<^verbatim>\<open>pad\<close>\<close>

text \<open>
  \<^verbatim>\<open>
  def pad(xs, value=np.nan):
      maxlen = np.max([len(x) for x in xs])
      padded_xs = []
      index = -1
      max_index = 0
      for idx, x in enumerate(xs):
          if len(x) >= maxlen:
              padded_xs.append(x)
              index = idx
              max_index = idx
          else:
              padding = np.ones((maxlen - x.shape[0],) + x.shape[1:]) * value
              x_padded = np.concatenate([x, padding], axis=0)
              padded_xs.append(x_padded)
      return np.array(padded_xs), index, max_index
  \<close>
  The loop, with its three variables as the state and \<open>idx\<close> counting the rows.
\<close>

fun pad_loop ::
  "nat \<Rightarrow> 'a \<Rightarrow> nat \<Rightarrow> 'a ndarray list \<Rightarrow> 'a ndarray list \<times> int \<times> int \<Rightarrow>
     error + ('a::{one,times} ndarray list \<times> int \<times> int)" where
  "pad_loop maxlen v idx [] st = Inr st"
| "pad_loop maxlen v idx (x # xs) (padded_xs, index, max_index) =
     (case shape x of
        [] \<Rightarrow> Inl UnsizedObject
      | n # rest \<Rightarrow>
          if n \<ge> maxlen
          then pad_loop maxlen v (Suc idx) xs (padded_xs @ [x], int idx, int idx)
          else (let padding = ones_times ((maxlen - n) # rest) v;
                    x_padded = concatenate0 x padding
                in pad_loop maxlen v (Suc idx) xs (padded_xs @ [x_padded], index, max_index)))"

text \<open>
  The row the loop appends for \<open>x\<close>: \<open>x\<close> itself, or \<open>x\<close> followed by the padding.
  It is used to state what the loop returns.
\<close>

definition pad_row :: "nat \<Rightarrow> 'a \<Rightarrow> 'a ndarray \<Rightarrow> 'a::{one,times} ndarray" where
  "pad_row maxlen v x =
     (case shape x of
        [] \<Rightarrow> x
      | n # rest \<Rightarrow>
          if n \<ge> maxlen then x
          else concatenate0 x (ones_times ((maxlen - n) # rest) v))"

definition pad :: "'a ndarray list \<Rightarrow> 'a \<Rightarrow> error + ('a::{one,times} ndarray \<times> int \<times> int)" where
  "pad xs v =
     (case lens xs of Inl e \<Rightarrow> Inl e | Inr ns \<Rightarrow>
     (case np_max ns of Inl e \<Rightarrow> Inl e | Inr maxlen \<Rightarrow>
     (case pad_loop maxlen v 0 xs ([], - 1, 0) of Inl e \<Rightarrow> Inl e
      | Inr (padded_xs, index, max_index) \<Rightarrow>
     (case np_array padded_xs of Inl e \<Rightarrow> Inl e
      | Inr a \<Rightarrow> Inr (a, index, max_index)))))"

section \<open>The aggregator: \<^verbatim>\<open>plot_with_iqr\<close>\<close>

text \<open>
  Column \<open>j\<close> of an array along its first axis: the entries at the flat position \<open>j\<close>
  of each of its blocks.
\<close>

definition column :: "'a ndarray \<Rightarrow> nat \<Rightarrow> 'a list" where
  "column a j =
     (case shape a of
        [] \<Rightarrow> []
      | n # rest \<Rightarrow> map (\<lambda>i. data a ! (i * prod_list rest + j)) [0..<n])"

text \<open>
  A reduction \<^verbatim>\<open>f(a, axis=0)\<close>: \<open>f\<close> applied to every column; the result has the
  shape of one block.
\<close>

definition along_axis0 :: "('a list \<Rightarrow> 'b) \<Rightarrow> 'a ndarray \<Rightarrow> error + 'b ndarray" where
  "along_axis0 f a =
     (case shape a of
        [] \<Rightarrow> Inl AxisOutOfBounds
      | n # rest \<Rightarrow> Inr \<lparr>shape = rest, data = map (\<lambda>j. f (column a j)) [0..<prod_list rest]\<rparr>)"

text \<open>
  The statistics are NumPy's. They are modelled from NumPy's implementation, on the
  numbers above: what is computed, and from which entries, is NumPy's; the arithmetic
  is exact on finite numbers.
\<close>

text \<open>The entries of a column that are not not-a-number, in their order.\<close>

definition remove_nan :: "float list \<Rightarrow> float list" where
  "remove_nan col = filter (\<lambda>e. e \<noteq> NaN) col"

text \<open>
  The order in which NumPy sorts: minus infinity, the finite numbers, plus infinity,
  and not-a-number last.
\<close>

fun float_rank :: "float \<Rightarrow> int \<times> real" where
  "float_rank NegInf = (- 1, 0)"
| "float_rank (Finite r) = (0, r)"
| "float_rank PosInf = (1, 0)"
| "float_rank NaN = (2, 0)"

definition np_sort :: "float list \<Rightarrow> float list" where
  "np_sort vs = sort_key float_rank vs"

text \<open>\<^verbatim>\<open>np.mean\<close> of a one-dimensional array: the sum over the count.\<close>

definition np_mean :: "float list \<Rightarrow> float" where
  "np_mean vs = foldl (+) 0 vs / Finite (real (length vs))"

text \<open>
  \<^verbatim>\<open>np.median\<close> of a non-empty one-dimensional array without not-a-number: the mean of
  the middle entry, or of the two middle entries, of the array put in order.
\<close>

definition np_median :: "float list \<Rightarrow> float" where
  "np_median vs =
     (let part = np_sort vs; sz = length vs; index = sz div 2
      in if sz mod 2 = 1 then np_mean (take 1 (drop index part))
         else np_mean (take 2 (drop (index - 1) part)))"

text \<open>
  NumPy's interpolation between two neighbours \<open>a\<close> and \<open>b\<close>: from the difference
  \<open>b - a\<close>, added to \<open>a\<close> for a weight below one half and subtracted from \<open>b\<close>
  otherwise. Between two equal infinities the difference is not-a-number, and so is the
  result.
\<close>

definition lerp :: "float \<Rightarrow> float \<Rightarrow> real \<Rightarrow> float" where
  "lerp a b t =
     (let diff_b_a = b - a
      in if t \<ge> 1 / 2 then b - diff_b_a * Finite (1 - t) else a + diff_b_a * Finite t)"

text \<open>
  \<^verbatim>\<open>np.percentile(vs, q)\<close> of a non-empty one-dimensional array without not-a-number,
  with the default method (linear): the virtual index \<open>(n - 1) * q / 100\<close> into the array
  put in order, the entries at its floor and at the next index, and the interpolation
  between them. At and past the last index both neighbours are the last entry, which
  NumPy addresses as \<open>-1\<close>.
\<close>

definition np_percentile :: "real \<Rightarrow> float list \<Rightarrow> float" where
  "np_percentile q vs =
     (let arr = np_sort vs; n = length vs;
          virtual = real (n - 1) * (q / 100);
          above = (virtual \<ge> real (n - 1));
          previous_index = (if above then - 1 else \<lfloor>virtual\<rfloor>);
          next_index = (if above then - 1 else \<lfloor>virtual\<rfloor> + 1);
          previous = arr ! (if previous_index < 0 then n - 1 else nat previous_index);
          next = arr ! (if next_index < 0 then n - 1 else nat next_index);
          gamma = virtual - real_of_int previous_index
      in lerp previous next gamma)"

text \<open>
  \<^verbatim>\<open>np.nanmedian\<close> and \<^verbatim>\<open>np.nanpercentile\<close> on one column: not-a-number entries are
  removed; of an empty rest the result is not-a-number.
\<close>

definition nanmedian1d :: "float list \<Rightarrow> float" where
  "nanmedian1d col = (let vs = remove_nan col in if vs = [] then NaN else np_median vs)"

definition nanpercentile1d :: "real \<Rightarrow> float list \<Rightarrow> float" where
  "nanpercentile1d q col =
     (let vs = remove_nan col in if vs = [] then NaN else np_percentile q vs)"

definition np_nanmedian :: "float ndarray \<Rightarrow> error + float ndarray" where
  "np_nanmedian a = along_axis0 nanmedian1d a"

definition np_nanpercentile :: "float ndarray \<Rightarrow> real \<Rightarrow> error + float ndarray" where
  "np_nanpercentile a q = along_axis0 (nanpercentile1d q) a"

text \<open>
  \<^verbatim>\<open>
  def plot_with_iqr(xs, ys, label, color):
      xs, index, _ = pad(xs)
      ys, _, _ = pad(ys)
      median = np.nanmedian(ys, axis=0)
      q25 = np.nanpercentile(ys, 25, axis=0)
      q75 = np.nanpercentile(ys, 75, axis=0)
      plt.plot(xs[index], median, color=color, label=label)
      plt.fill_between(xs[index], q25, q75, color=color, alpha=0.25)
  \<close>
  The result is what is handed to the plotting library: the x-sequence and the three
  curves. The label and the colour are passed through and are left out.
\<close>

record summary_curve =
  curve_x :: "float ndarray"
  curve_median :: "float ndarray"
  curve_q25 :: "float ndarray"
  curve_q75 :: "float ndarray"

definition plot_with_iqr :: "float ndarray list \<Rightarrow> float ndarray list \<Rightarrow> error + summary_curve" where
  "plot_with_iqr xs ys =
     (case pad xs NaN of Inl e \<Rightarrow> Inl e | Inr (xs', index, _) \<Rightarrow>
     (case pad ys NaN of Inl e \<Rightarrow> Inl e | Inr (ys', _, _) \<Rightarrow>
     (case np_nanmedian ys' of Inl e \<Rightarrow> Inl e | Inr median \<Rightarrow>
     (case np_nanpercentile ys' 25 of Inl e \<Rightarrow> Inl e | Inr q25 \<Rightarrow>
     (case np_nanpercentile ys' 75 of Inl e \<Rightarrow> Inl e | Inr q75 \<Rightarrow>
     (case np_index xs' index of Inl e \<Rightarrow> Inl e | Inr x \<Rightarrow>
        Inr \<lparr>curve_x = x, curve_median = median, curve_q25 = q25, curve_q75 = q75\<rparr>))))))"

section \<open>Properties of the smoother\<close>

lemma length_correlate_same: "length (correlate_same a v) = length a"
  by (simp add: correlate_same_def Let_def)

lemma np_convolve_same_Inr:
  "np_convolve_same a v = Inr r \<Longrightarrow> length r = max (length a) (length v) \<and> a \<noteq> [] \<and> v \<noteq> []"
  by (auto simp: np_convolve_same_def Let_def length_correlate_same split: if_splits)



lemma smooth_reward_curve_unfold:
  "smooth_reward_curve x y p r =
     (case np_ones (window_width x p r) of Inl e \<Rightarrow> Inl e | Inr ones \<Rightarrow>
     (case np_convolve_same y ones of Inl e \<Rightarrow> Inl e | Inr num \<Rightarrow>
     (case np_convolve_same (np_ones_like y) ones of Inl e \<Rightarrow> Inl e | Inr den \<Rightarrow>
        Inr (x, map2 (/) num den))))"
  by (simp add: smooth_reward_curve_def window_width_def Let_def split: sum.splits)

text \<open>
  X1. When the smoother returns, it returns \<open>x\<close> unchanged, and the smoothed y has the
  length of the longer of \<open>y\<close> and the window: \<^verbatim>\<open>mode='same'\<close> keeps the length of the
  longer argument of the convolution, whichever it is. The length is that of \<open>y\<close> when
  \<open>y\<close> is at least as long as the window.
\<close>

theorem smooth_reward_curve_length:
  assumes "smooth_reward_curve x y p r = Inr (x', ys)"
  shows "x' = x \<and> length ys = max (length y) (nat (window_width x p r))"
proof -
  from assms obtain ones num den where
    o: "np_ones (window_width x p r) = Inr ones" and
    n: "np_convolve_same y ones = Inr num" and
    d: "np_convolve_same (np_ones_like y) ones = Inr den" and
    r: "x' = x" "ys = map2 (/) num den"
    by (auto simp: smooth_reward_curve_unfold split: sum.splits)
  from o have lo: "length ones = nat (window_width x p r)"
    by (auto simp: np_ones_def split: if_splits)
  from np_convolve_same_Inr [OF n] np_convolve_same_Inr [OF d] lo r show ?thesis
    by (simp add: np_ones_like_def)
qed

theorem smooth_reward_curve_length_witness:
  "smooth_reward_curve [Finite 1, Finite 2, Finite 3] [Finite 4, Finite 5, Finite 6, Finite 7] 2 (Some 100)
     = Inr ([Finite 1, Finite 2, Finite 3], [Finite (9 / 2), Finite 5, Finite 6, Finite (13 / 2)]) \<and>
   length [Finite (9 / 2), Finite 5, Finite 6, Finite (13 / 2)]
     = max (length [Finite 4, Finite 5, Finite 6, Finite 7])
           (nat (window_width [Finite 1, Finite 2, Finite 3] 2 (Some 100)))"
proof -
  have run: "smooth_reward_curve [Finite 1, Finite 2, Finite 3] [Finite 4, Finite 5, Finite 6, Finite 7] 2 (Some 100)
     = Inr ([Finite 1, Finite 2, Finite 3], [Finite (9 / 2), Finite 5, Finite 6, Finite (13 / 2)])"
    by code_simp
  from smooth_reward_curve_length [OF run] run show ?thesis by blast
qed

lemma correlate_same_nth:
  "i < length a \<Longrightarrow>
     correlate_same a v ! i = dot (drop (i - length v div 2) a) (drop (length v div 2 - i) v)"
  by (simp add: correlate_same_def Let_def)

lemma foldl_dot_Finite:
  "foldl (\<lambda>s (x, y). s + x * y) (Finite s) (zip (map Finite as) (map Finite bs))
     = Finite (s + sum_list (map2 (*) as bs))"
proof (induction as arbitrary: bs s)
  case Nil
  then show ?case by simp
next
  case (Cons a as)
  then show ?case by (cases bs) (simp_all add: add.assoc)
qed

lemma dot_Finite: "dot (map Finite as) (map Finite bs) = Finite (sum_list (map2 (*) as bs))"
  using foldl_dot_Finite [of 0 as bs] by (simp add: dot_def zero_float_def)

lemma sum_list_zeros: "sum_list (map2 (*) (replicate k (0::real)) bs) = 0"
  by (induction k arbitrary: bs) (auto simp: zip_Cons1 split: list.splits)

lemma float_mult_one: "0 + a * 1 = (a :: float)"
  by (cases a) (simp_all add: zero_float_def one_float_def signed_inf_def)

lemma float_div_one: "a / 1 = (a :: float)"
  by (cases a) (simp_all add: one_float_def)

lemma window_width_Some: "window_width x 1 (Some r) = halfwidth r + 1"
  by (simp add: window_width_def)

lemma halfwidth_pos: "1 \<le> r \<Longrightarrow> 1 \<le> halfwidth r"
proof -
  assume "1 \<le> r"
  then have "(- r) div 100 < 0"
    by (simp add: pos_imp_zdiv_neg_iff)
  then show ?thesis unfolding halfwidth_def by linarith
qed

lemma halfwidth_zero_iff: "halfwidth r = 0 \<longleftrightarrow> - 100 < r \<and> r \<le> 0"
proof -
  have "halfwidth r = 0 \<longleftrightarrow> (- r) div 100 = 0"
    unfolding halfwidth_def by linarith
  also have "\<dots> \<longleftrightarrow> 0 \<le> - r \<and> - r < 100"
    unfolding zdiv_eq_0_iff by linarith
  finally show ?thesis by linarith
qed

text \<open>
  C2, at a run shorter than the window. With the defaults of the command line
  (\<open>padding = 10\<close>, no \<open>max_range\<close>) a run of three rows is smoothed with a window of
  \<open>10 * 1 + 1 = 11\<close> entries; NumPy's \<^verbatim>\<open>mode='same'\<close> returns as many entries as the
  longer argument has, so the smoothed y has 11 entries while \<open>x\<close> keeps its three.
\<close>

theorem smooth_reward_curve_short_run:
  "smooth_reward_curve [Finite 1, Finite 2, Finite 3] [Finite 1, Finite 2, Finite 3] 10 None
     = Inr ([Finite 1, Finite 2, Finite 3],
            [Finite (3 / 2), Finite 2, Finite 2, Finite 2, Finite 2, Finite 2,
             Finite 2, Finite 2, Finite 2, Finite 2, Finite (5 / 2)])"
  by code_simp



text \<open>
  For \<open>padding = 1\<close> and a reference length \<open>r \<ge> 1\<close> the window has
  \<open>ceil(r / 100) + 1 \<ge> 2\<close> entries, and the signal \<open>1, 0, \<dots>, 0\<close> of exactly that
  length is changed at its second entry.
\<close>

lemma smooth_not_identity:
  assumes r: "1 \<le> r"
  defines "k \<equiv> nat (halfwidth r)"
  defines "y \<equiv> Finite 1 # replicate k (Finite 0)"
  shows "window_width x 1 (Some r) = int (length y)"
    and "smooth_reward_curve x y 1 (Some r) \<noteq> Inr (x, y)"
proof -
  from halfwidth_pos [OF r] have k: "1 \<le> k" "int k = halfwidth r"
    by (simp_all add: k_def)
  show w: "window_width x 1 (Some r) = int (length y)"
    using k by (simp add: window_width_Some y_def)
  define ones :: "float list" where "ones = replicate (Suc k) 1"
  have o: "np_ones (window_width x 1 (Some r)) = Inr ones"
    using k by (simp add: np_ones_def window_width_Some ones_def nat_add_distrib)
  have ly: "length y = Suc k" by (simp add: y_def)
  have yne: "y \<noteq> []" "ones \<noteq> []" by (simp_all add: y_def ones_def)
  have lo: "length ones = Suc k" and ro: "rev ones = ones"
    by (simp_all only: ones_def rev_replicate length_replicate)
  have num: "np_convolve_same y ones = Inr (correlate_same y ones)"
    using yne by (simp add: np_convolve_same_def ly lo ro)
  have den: "np_convolve_same (np_ones_like y) ones = Inr (correlate_same (np_ones_like y) ones)"
    using yne by (simp add: np_convolve_same_def ly lo ro np_ones_like_def)
  define n_left where "n_left = Suc k div 2"
  have nl: "1 \<le> n_left" "n_left \<le> k" using k by (simp_all add: n_left_def)
  define m where "m = k - (n_left - 1)"
  have "Suc k - (n_left - 1) = Suc m"
    using nl by (simp add: m_def)
  then have m: "drop (n_left - 1) ones = replicate (Suc m) 1"
    by (simp only: ones_def drop_replicate)
  define A where "A = correlate_same y ones"
  define B where "B = correlate_same (np_ones_like y) ones"
  have lA: "length A = Suc k" and lB: "length B = Suc k"
    by (simp_all add: A_def B_def length_correlate_same ly np_ones_like_def)
  have "A ! Suc 0 = dot y (drop (n_left - 1) ones)"
    unfolding A_def using k nl by (simp add: correlate_same_nth ly lo n_left_def)
  also have "\<dots> = dot (map Finite (1 # replicate k 0)) (map Finite (replicate (Suc m) 1))"
    by (simp only: m) (simp add: y_def one_float_def)
  also have "\<dots> = Finite 1"
    by (simp only: dot_Finite) (simp add: sum_list_replicate)
  finally have n1: "A ! Suc 0 = Finite 1" .
  have mk: "m \<le> k" by (simp add: m_def)
  have "B ! Suc 0 = dot (np_ones_like y) (drop (n_left - 1) ones)"
    unfolding B_def using k nl by (simp add: correlate_same_nth np_ones_like_def ly lo n_left_def)
  also have "\<dots> = dot (map Finite (replicate (Suc k) 1)) (map Finite (replicate (Suc m) 1))"
    by (simp only: m) (simp add: np_ones_like_def ly one_float_def)
  also have "\<dots> = Finite (real (Suc m))"
    using mk by (simp only: dot_Finite) (simp add: zip_replicate sum_list_replicate min_def)
  finally have d1: "B ! Suc 0 = Finite (real (Suc m))" .
  have "map2 (/) A B ! Suc 0 = A ! Suc 0 / B ! Suc 0"
    using k lA lB by simp
  then have "map2 (/) A B ! Suc 0 = Finite (1 / real (Suc m))"
    by (simp add: n1 d1)
  then have "map2 (/) A B ! Suc 0 \<noteq> y ! Suc 0"
    using k by (simp add: y_def)
  then have "map2 (/) A B \<noteq> y"
    by auto
  then show "smooth_reward_curve x y 1 (Some r) \<noteq> Inr (x, y)"
    by (simp add: smooth_reward_curve_unfold o num den A_def B_def)
qed

text \<open>
  C8 as stated fails. With \<open>padding = 1\<close> and \<open>reference_length = 100\<close> the window has
  two entries and \<open>0, 3\<close> is smoothed to \<open>0, 3/2\<close>; and there is no bound beyond which
  the smoother with \<open>padding = 1\<close> is the identity, not even on the signals at least as
  long as the window: a larger reference length gives a wider window, not a narrower
  one.
\<close>

theorem smooth_reward_curve_large_reference_length:
  "smooth_reward_curve [] [Finite 0, Finite 3] 1 (Some 100)
     = Inr ([] :: float list, [Finite 0, Finite (3 / 2)]) \<and>
   \<not> (\<exists>R. \<forall>r\<ge>R. \<forall>(x :: float list) (y :: float list).
          window_width x 1 (Some r) \<le> int (length y) \<longrightarrow>
          smooth_reward_curve x y 1 (Some r) = Inr (x, y))"
proof
  show "smooth_reward_curve [] [Finite 0, Finite 3] 1 (Some 100)
          = Inr ([] :: float list, [Finite 0, Finite (3 / 2)])"
    by code_simp
next
  show "\<not> (\<exists>R. \<forall>r\<ge>R. \<forall>(x :: float list) (y :: float list).
          window_width x 1 (Some r) \<le> int (length y) \<longrightarrow>
          smooth_reward_curve x y 1 (Some r) = Inr (x, y))"
  proof
    assume "\<exists>R. \<forall>r\<ge>R. \<forall>(x :: float list) (y :: float list).
          window_width x 1 (Some r) \<le> int (length y) \<longrightarrow>
          smooth_reward_curve x y 1 (Some r) = Inr (x, y)"
    then obtain R where R: "\<forall>r\<ge>R. \<forall>(x :: float list) (y :: float list).
          window_width x 1 (Some r) \<le> int (length y) \<longrightarrow>
          smooth_reward_curve x y 1 (Some r) = Inr (x, y)" ..
    define r where "r = max R 1"
    define y where "y = Finite 1 # replicate (nat (halfwidth r)) (Finite 0)"
    have r: "R \<le> r" "1 \<le> r" by (simp_all add: r_def)
    from R r(1) have "window_width ([] :: float list) 1 (Some r) \<le> int (length y) \<longrightarrow>
        smooth_reward_curve ([] :: float list) y 1 (Some r) = Inr ([], y)"
      by blast
    moreover have "window_width ([] :: float list) 1 (Some r) = int (length y)"
      unfolding y_def by (rule smooth_not_identity(1) [OF r(2)])
    moreover have "smooth_reward_curve ([] :: float list) y 1 (Some r) \<noteq> Inr ([], y)"
      unfolding y_def by (rule smooth_not_identity(2) [OF r(2)])
    ultimately show False by simp
  qed
qed

text \<open>
  C8, as the code has it. When the window width \<open>padding * k + 1\<close> evaluates to 1, the
  smoother returns every non-empty \<open>y\<close> unchanged. Of the arithmetic this needs only
  that adding a product with one to zero, and dividing by one, change nothing, which
  holds for binary64 values as for exact ones. For \<open>padding = 1\<close> the width is 1 exactly
  for the reference lengths from \<open>-99\<close> to \<open>0\<close> (\<open>halfwidth_zero_iff\<close>).
\<close>

theorem smooth_reward_curve_identity:
  fixes y :: "'a::{zero,one,plus,times,inverse} list"
  assumes w: "window_width x padding a_range = 1" and y: "y \<noteq> []"
    and mult_one: "\<And>a :: 'a. 0 + a * 1 = a" and div_one: "\<And>a :: 'a. a / 1 = a"
  shows "smooth_reward_curve x y padding a_range = Inr (x, y)"
proof -
  have o: "np_ones (window_width x padding a_range) = Inr [1 :: 'a]"
    by (simp add: w np_ones_def)
  have conv: "np_convolve_same z [1] = Inr (map (\<lambda>a. 0 + a * 1) z)" if "z \<noteq> []" for z :: "'a list"
  proof -
    have "correlate_same z [1] = map (\<lambda>i. dot (drop i z) [1]) [0..<length z]"
      by (simp add: correlate_same_def)
    also have "\<dots> = map (\<lambda>i. 0 + z ! i * 1) [0..<length z]"
      by (rule map_cong) (simp_all add: dot_def Cons_nth_drop_Suc [symmetric])
    also have "\<dots> = map (\<lambda>a. 0 + a * 1) (map (\<lambda>i. z ! i) [0..<length z])"
      by (simp only: map_map o_def)
    also have "\<dots> = map (\<lambda>a. 0 + a * 1) z"
      by (simp only: map_nth)
    finally show ?thesis using that
      by (cases z) (simp_all add: np_convolve_same_def)
  qed
  have num: "np_convolve_same y [1] = Inr y"
    using conv [OF y] by (simp add: mult_one)
  have "np_ones_like y \<noteq> []" using y by (simp add: np_ones_like_def)
  from conv [OF this] have den: "np_convolve_same (np_ones_like y) [1] = Inr (replicate (length y) 1)"
    by (simp add: mult_one np_ones_like_def)
  have "map2 (/) y (replicate (length y) (1 :: 'a)) = y"
    by (induction y) (simp_all add: div_one)
  then show ?thesis
    by (simp add: smooth_reward_curve_unfold o num den)
qed

theorem smooth_reward_curve_identity_witness:
  "window_width [Finite 5] 0 None = 1 \<and>
   smooth_reward_curve [Finite 5] [Finite 1, NaN, Finite 3] 0 None
     = Inr ([Finite 5], [Finite 1, NaN, Finite 3])"
proof -
  have w: "window_width [Finite 5] 0 None = 1" by (simp add: window_width_def)
  from smooth_reward_curve_identity [OF w _ float_mult_one float_div_one, of "[Finite 1, NaN, Finite 3]"]
  show ?thesis using w by simp
qed

lemma under_window_upt:
  assumes "1 \<le> w"
  shows "under_window n w i = [i - w div 2..<min n (i + w - w div 2)]"
proof (rule sorted_distinct_set_unique)
  show "sorted (under_window n w i)" by (simp add: under_window_def sorted_wrt_filter)
  show "distinct (under_window n w i)" by (simp add: under_window_def)
  show "sorted [i - w div 2..<min n (i + w - w div 2)]" by simp
  show "distinct [i - w div 2..<min n (i + w - w div 2)]" by simp
  have "w div 2 < w" using assms by simp
  then show "set (under_window n w i) = set [i - w div 2..<min n (i + w - w div 2)]"
    unfolding under_window_def by auto
qed

lemma length_under_window:
  assumes "1 \<le> w" and "i < n"
  shows "1 \<le> length (under_window n w i)" and "length (under_window n w i) \<le> w"
proof -
  have "w div 2 < w" using assms by simp
  then show "1 \<le> length (under_window n w i)" "length (under_window n w i) \<le> w"
    using assms(2) unfolding under_window_upt [OF assms(1)] length_upt by linarith+
qed

lemma zip_drop_nth:
  "zip (drop p a) (drop q v)
     = map (\<lambda>k. (a ! (p + k), v ! (q + k))) [0..<min (length a - p) (length v - q)]"
proof (rule nth_equalityI)
  show "length (zip (drop p a) (drop q v))
          = length (map (\<lambda>k. (a ! (p + k), v ! (q + k))) [0..<min (length a - p) (length v - q)])"
    by simp
next
  fix i
  assume "i < length (zip (drop p a) (drop q v))"
  then have i: "i < length a - p" "i < length v - q" by simp_all
  then have "p \<le> length a" "q \<le> length v" by linarith+
  then have "drop p a ! i = a ! (p + i)" "drop q v ! i = v ! (q + i)"
    by (simp_all add: nth_drop)
  then show "zip (drop p a) (drop q v) ! i
               = map (\<lambda>k. (a ! (p + k), v ! (q + k))) [0..<min (length a - p) (length v - q)] ! i"
    using i by simp
qed

text \<open>
  The correlation at a position is the inner product over the positions under the
  window there: the window is clipped at the ends of the signal.
\<close>

lemma correlate_same_window:
  assumes i: "i < length a" and w: "1 \<le> length v"
  shows "correlate_same a v ! i
           = dot (map (\<lambda>j. a ! j) (under_window (length a) (length v) i))
                 (map (\<lambda>j. v ! (j + length v div 2 - i)) (under_window (length a) (length v) i))"
proof -
  define n where "n = length a"
  define W where "W = length v"
  define nl where "nl = W div 2"
  define lo where "lo = i - nl"
  define q where "q = nl - i"
  have nlW: "nl < W" using w by (simp add: nl_def W_def)
  have U: "under_window n W i = [lo..<min n (i + W - nl)]"
    using w unfolding lo_def nl_def W_def by (rule under_window_upt)
  have cnt: "min n (i + W - nl) - lo = min (n - lo) (W - q)"
    using nlW i unfolding lo_def q_def n_def by (simp add: min_def) linarith
  have lohi: "lo \<le> min n (i + W - nl)"
    using nlW i unfolding lo_def n_def by linarith
  have "map (\<lambda>k. lo + k) [0..<min n (i + W - nl) - lo] = [lo..<min n (i + W - nl)]"
    using lohi by (simp only: add.commute [of lo] map_add_upt le_add_diff_inverse2)
  then have "[lo..<min n (i + W - nl)] = map (\<lambda>k. lo + k) [0..<min (n - lo) (W - q)]"
    unfolding cnt by simp
  then have U': "under_window n W i = map (\<lambda>k. lo + k) [0..<min (n - lo) (W - q)]"
    using U by simp
  have idx: "lo + k + nl - i = q + k" if "k < min (n - lo) (W - q)" for k
    using that nlW unfolding lo_def q_def by linarith
  have "zip (map (\<lambda>j. a ! j) (under_window n W i)) (map (\<lambda>j. v ! (j + nl - i)) (under_window n W i))
          = map (\<lambda>k. (a ! (lo + k), v ! (q + k))) [0..<min (n - lo) (W - q)]"
    unfolding U' by (simp add: zip_map_map zip_same_conv_map idx cong: map_cong)
  also have "\<dots> = zip (drop lo a) (drop q v)"
    by (simp add: zip_drop_nth n_def W_def)
  finally have "dot (map (\<lambda>j. a ! j) (under_window n W i)) (map (\<lambda>j. v ! (j + nl - i)) (under_window n W i))
                  = dot (drop lo a) (drop q v)"
    by (simp add: dot_def)
  moreover have "correlate_same a v ! i = dot (drop lo a) (drop q v)"
    using i by (simp add: correlate_same_nth lo_def q_def nl_def W_def)
  ultimately show ?thesis by (simp add: n_def W_def nl_def)
qed


text \<open>
  Over a constant signal the values under the window are copies of the constant, and
  the window entries that meet them are ones.
\<close>

lemma correlate_same_replicate:
  fixes c :: "'a::{zero,one,plus,times}"
  assumes i: "i < n" and w: "1 \<le> w"
  shows "correlate_same (replicate n c) (replicate w 1) ! i
           = dot (replicate (length (under_window n w i)) c)
                 (replicate (length (under_window n w i)) 1)"
proof -
  have 1: "map (\<lambda>j. replicate n c ! j) (under_window n w i)
             = replicate (length (under_window n w i)) c"
    unfolding map_replicate_const [symmetric]
    by (rule map_cong) (simp_all add: under_window_def)
  have 2: "map (\<lambda>j. replicate w (1 :: 'a) ! (j + w div 2 - i)) (under_window n w i)
             = replicate (length (under_window n w i)) 1"
    unfolding map_replicate_const [symmetric]
  proof (rule map_cong)
    fix j
    assume "j \<in> set (under_window n w i)"
    then have "j + w div 2 - i < w" unfolding under_window_def by auto
    then show "replicate w (1 :: 'a) ! (j + w div 2 - i) = 1" by simp
  qed simp
  from correlate_same_window [of i "replicate n c" "replicate w 1"] i w
  show ?thesis by (simp only: length_replicate 1 2)
qed

lemma foldl_dot_NaN: "foldl (\<lambda>s (x, y). s + x * y) NaN zs = NaN"
  by (induction zs) (simp_all add: split_def)

lemma foldl_dot_PosInf:
  "foldl (\<lambda>s (x, y). s + x * y) PosInf (replicate k (PosInf, Finite 1)) = PosInf"
  by (induction k) (simp_all add: signed_inf_def)

lemma foldl_dot_NegInf:
  "foldl (\<lambda>s (x, y). s + x * y) NegInf (replicate k (NegInf, Finite 1)) = NegInf"
  by (induction k) (simp_all add: signed_inf_def)

lemma dot_ones_float: "dot (replicate m (1 :: float)) (replicate m 1) = Finite (real m)"
proof -
  have ones: "replicate m (1 :: float) = map Finite (replicate m 1)"
    by (simp add: one_float_def)
  show ?thesis
    unfolding ones using dot_Finite [of "replicate m 1" "replicate m 1"]
    by (simp add: zip_replicate sum_list_replicate)
qed

text \<open>
  In exact arithmetic the sum of \<open>m \<ge> 1\<close> copies of \<open>c\<close> over \<open>m\<close> is \<open>c\<close>, also for an
  infinite \<open>c\<close> and for not-a-number.
\<close>

lemma dot_replicate_float:
  assumes "1 \<le> m"
  shows "dot (replicate m c) (replicate m 1) / Finite (real m) = (c :: float)"
proof -
  from assms obtain m' where m': "m = Suc m'" by (cases m) simp_all
  show ?thesis
  proof (cases c)
    case NaN
    have "dot (replicate m NaN) (replicate m 1) = NaN"
      by (simp add: m' dot_def zero_float_def one_float_def foldl_dot_NaN)
    then show ?thesis by (simp add: NaN)
  next
    case (Finite r)
    have ones: "replicate m (1 :: float) = map Finite (replicate m 1)"
      by (simp add: one_float_def)
    have "dot (replicate m c) (replicate m 1) = Finite (real m * r)"
      unfolding Finite ones using dot_Finite [of "replicate m r" "replicate m 1"]
      by (simp add: zip_replicate sum_list_replicate)
    then show ?thesis using assms by (simp add: Finite)
  next
    case PosInf
    have "dot (replicate m PosInf) (replicate m 1) = PosInf"
      by (simp add: m' dot_def zero_float_def one_float_def signed_inf_def foldl_dot_PosInf)
    then show ?thesis by (simp add: PosInf)
  next
    case NegInf
    have "dot (replicate m NegInf) (replicate m 1) = NegInf"
      by (simp add: m' dot_def zero_float_def one_float_def signed_inf_def foldl_dot_NegInf)
    then show ?thesis by (simp add: NegInf)
  qed
qed

text \<open>
  C5, as the code has it. For a constant signal at least as long as the window, the
  smoothed value at every position, at the boundary as in the interior, is the quotient
  of the value convolution by the count convolution there: of the sum of \<open>m\<close> copies of
  \<open>c\<close> by \<open>m\<close>, where \<open>m\<close> is the number of signal entries under the window at that
  position. \<open>m\<close> is at least one and at most the window width, and smaller than the
  width at the first position when the window has two entries or more: the sum is
  divided by the count of contributors, not by the window width. In exact arithmetic
  the quotient is \<open>c\<close>, so the smoothed signal is the signal.
\<close>

theorem smooth_reward_curve_constant:
  fixes e :: float
  assumes "window_width x padding a_range = int w" and "1 \<le> w" and "w \<le> n"
  shows "\<exists>num den.
           np_convolve_same (replicate n e) (replicate w 1) = Inr num \<and>
           np_convolve_same (np_ones_like (replicate n e)) (replicate w 1) = Inr den \<and>
           smooth_reward_curve x (replicate n e) padding a_range = Inr (x, map2 (/) num den) \<and>
           length num = n \<and> length den = n \<and>
           (\<forall>i<n. 1 \<le> length (under_window n w i) \<and> length (under_window n w i) \<le> w \<and>
                  num ! i = dot (replicate (length (under_window n w i)) e)
                                (replicate (length (under_window n w i)) 1) \<and>
                  den ! i = Finite (real (length (under_window n w i))) \<and>
                  num ! i / den ! i = e) \<and>
           (2 \<le> w \<longrightarrow> length (under_window n w 0) < w) \<and>
           smooth_reward_curve x (replicate n e) padding a_range = Inr (x, replicate n e)"
proof -
  define ones :: "float list" where "ones = replicate w 1"
  define num where "num = correlate_same (replicate n e) ones"
  define den where "den = correlate_same (np_ones_like (replicate n e)) ones"
  have o: "np_ones (window_width x padding a_range) = Inr ones"
    by (simp add: assms(1) np_ones_def ones_def)
  have lo: "length ones = w" and ro: "rev ones = ones"
    by (simp_all only: ones_def rev_replicate length_replicate)
  have ne: "ones \<noteq> []" "0 < n"
    using assms by (simp_all add: ones_def)
  have conv: "np_convolve_same (replicate n d) ones = Inr (correlate_same (replicate n d) ones)"
    for d :: float
    using assms ne by (simp add: np_convolve_same_def lo ro)
  have cn: "np_convolve_same (replicate n e) ones = Inr num"
    unfolding num_def by (rule conv)
  have cd: "np_convolve_same (np_ones_like (replicate n e)) ones = Inr den"
    unfolding den_def np_ones_like_def length_replicate by (rule conv)
  have run: "smooth_reward_curve x (replicate n e) padding a_range = Inr (x, map2 (/) num den)"
    by (simp add: smooth_reward_curve_unfold o cn cd)
  have len: "length num = n" "length den = n"
    by (simp_all add: num_def den_def length_correlate_same np_ones_like_def)
  have pos: "1 \<le> length (under_window n w i) \<and> length (under_window n w i) \<le> w \<and>
             num ! i = dot (replicate (length (under_window n w i)) e)
                           (replicate (length (under_window n w i)) 1) \<and>
             den ! i = Finite (real (length (under_window n w i))) \<and>
             num ! i / den ! i = e"
    if i: "i < n" for i
  proof -
    define m where "m = length (under_window n w i)"
    have m: "1 \<le> m" "m \<le> w"
      unfolding m_def using length_under_window [OF assms(2) i] by simp_all
    have n: "num ! i = dot (replicate m e) (replicate m 1)"
      unfolding num_def ones_def m_def using i assms(2) by (rule correlate_same_replicate)
    have "den ! i = dot (replicate m 1) (replicate m 1)"
      unfolding den_def ones_def m_def np_ones_like_def length_replicate
      using i assms(2) by (rule correlate_same_replicate)
    then have d: "den ! i = Finite (real m)"
      by (simp only: dot_ones_float)
    have "num ! i / den ! i = e"
      unfolding n d using m(1) by (rule dot_replicate_float)
    with m n d show ?thesis unfolding m_def by blast
  qed
  have first: "length (under_window n w 0) < w" if "2 \<le> w"
    using that assms(3) by (simp add: under_window_upt [OF assms(2)])
  have q: "num ! i / den ! i = e" if "i < n" for i
    using pos [OF that] by blast
  have "map2 (/) num den = replicate n e"
    using len by (intro nth_equalityI) (simp_all add: q)
  with run have "smooth_reward_curve x (replicate n e) padding a_range = Inr (x, replicate n e)"
    by simp
  with cn cd run len pos first show ?thesis
    unfolding ones_def by blast
qed

theorem smooth_reward_curve_constant_witness:
  "window_width ([] :: float list) 2 (Some 100) = int 3 \<and> (1 :: nat) \<le> 3 \<and> (3 :: nat) \<le> 5 \<and>
   map (\<lambda>i. length (under_window 5 3 i)) [0..<5] = [2, 3, 3, 3, 2] \<and>
   smooth_reward_curve ([] :: float list) (replicate 5 (Finite (1 / 10))) 2 (Some 100)
     = Inr ([], replicate 5 (Finite (1 / 10))) \<and>
   smooth_reward_curve ([] :: float list) (replicate 5 PosInf) 2 (Some 100)
     = Inr ([], replicate 5 PosInf)"
proof -
  have w: "window_width ([] :: float list) 2 (Some 100) = int 3"
    by (simp add: window_width_def halfwidth_def)
  have c: "map (\<lambda>i. length (under_window 5 3 i)) [0..<5] = [2, 3, 3, 3, 2]"
    by code_simp
  have l: "(1 :: nat) \<le> 3" "(3 :: nat) \<le> 5"
    by simp_all
  from smooth_reward_curve_constant [OF w l, of "Finite (1 / 10)"]
  have a: "smooth_reward_curve ([] :: float list) (replicate 5 (Finite (1 / 10))) 2 (Some 100)
             = Inr ([], replicate 5 (Finite (1 / 10)))"
    by blast
  from smooth_reward_curve_constant [OF w l, of PosInf]
  have b: "smooth_reward_curve ([] :: float list) (replicate 5 PosInf) 2 (Some 100)
             = Inr ([], replicate 5 PosInf)"
    by blast
  from w l c a b show ?thesis by blast
qed

text \<open>
  C5 as stated fails in binary64 arithmetic. The constant signal \<open>0.1, 0.1, 0.1\<close>
  (the binary64 number nearest to \<open>1/10\<close> is \<open>3602879701896397 / 2^55\<close>) under a window
  of three entries (\<open>padding = 2\<close>, \<open>reference_length = 100\<close>) is smoothed to
  \<open>0.1, 0.10000000000000002, 0.1\<close>: the sum of three copies rounds up to
  \<open>0.30000000000000004\<close>, and its third is the next binary64 number after \<open>0.1\<close>. The
  order of the additions does not matter here: the products with one and the sum with
  zero are exact, and three equal summands are added as \<open>(c + c) + c\<close> or as
  \<open>c + (c + c)\<close>, which round to the same number.
\<close>

theorem smooth_reward_curve_constant_rounded:
  "round_binary64 (1 / 10) = 3602879701896397 / 36028797018963968 \<and>
   smooth_reward_curve ([] :: float list)
       (replicate 3 (Binary64 (3602879701896397 / 36028797018963968))) 2 (Some 100)
     = Inr ([], [Binary64 (3602879701896397 / 36028797018963968),
                 Binary64 (7205759403792795 / 72057594037927936),
                 Binary64 (3602879701896397 / 36028797018963968)]) \<and>
   Binary64 (7205759403792795 / 72057594037927936)
     \<noteq> Binary64 (3602879701896397 / 36028797018963968) \<and>
   (Binary64 (3602879701896397 / 36028797018963968)
      + Binary64 (3602879701896397 / 36028797018963968))
      + Binary64 (3602879701896397 / 36028797018963968)
     = Binary64 (3602879701896397 / 36028797018963968)
      + (Binary64 (3602879701896397 / 36028797018963968)
         + Binary64 (3602879701896397 / 36028797018963968))"
  by code_simp

text \<open>
  C10. The smoothed y does not depend on the entries of \<open>x\<close>: two calls with the same
  \<open>y\<close>, the same \<open>padding\<close> and the same non-null \<open>a_range\<close> return the same smoothed
  y (or fail with the same error), whatever the two \<open>x\<close> are, for every arithmetic of
  the entries.
\<close>

theorem smooth_reward_curve_ignores_x:
  "map_sum id snd (smooth_reward_curve x1 y padding (Some r))
     = map_sum id snd (smooth_reward_curve x2 y padding (Some r))"
  by (simp add: smooth_reward_curve_def Let_def split: sum.splits)

section \<open>Properties of the aligner\<close>

lemma lens_Inr_iff:
  "lens xs = Inr ns \<longleftrightarrow> length ns = length xs \<and> (\<forall>i<length xs. py_len (xs ! i) = Inr (ns ! i))"
proof (induction xs arbitrary: ns)
  case Nil
  then show ?case by auto
next
  case (Cons x xs)
  show ?case
  proof (cases "py_len x")
    case (Inl e)
    then show ?thesis by (auto simp: nth_Cons split: nat.splits)
  next
    case (Inr n)
    show ?thesis
    proof (cases ns)
      case Nil
      then show ?thesis using Inr by (auto split: sum.splits)
    next
      case (Cons m ms)
      show ?thesis unfolding Cons using Inr Cons.IH [of ms]
        by (auto simp: nth_Cons All_less_Suc2 split: sum.splits)
    qed
  qed
qed

lemma np_max_Inr: "np_max ns = Inr L \<longleftrightarrow> ns \<noteq> [] \<and> L = Max (set ns)"
proof (cases ns)
  case Nil
  then show ?thesis by (simp add: np_max_def)
next
  case (Cons n rest)
  have "fold max rest n = Max (set (n # rest))"
    by (simp only: Max.set_eq_fold)
  then show ?thesis using Cons by (auto simp: np_max_def)
qed

text \<open>
  What the loop returns: the rows, and as \<open>index\<close> either the value it started with
  (no row reaches \<open>L\<close>) or the position of the last row that reaches \<open>L\<close>.
\<close>

lemma pad_loop_result:
  assumes "lens xs = Inr ns"
  shows "\<exists>index' mi'.
           pad_loop L v idx xs (acc, index, mi) = Inr (acc @ map (pad_row L v) xs, index', mi') \<and>
           ((index' = index \<and> mi' = mi \<and> (\<forall>n\<in>set ns. n < L)) \<or>
            (\<exists>i<length ns. index' = int (idx + i) \<and> mi' = index' \<and> L \<le> ns ! i \<and>
               (\<forall>j. i < j \<and> j < length ns \<longrightarrow> ns ! j < L)))"
  using assms
proof (induction xs arbitrary: ns idx acc index mi)
  case Nil
  then show ?case by simp
next
  case (Cons x xs)
  from Cons.prems obtain n ms rest where
    sx: "shape x = n # rest" and ns: "ns = n # ms" and ms: "lens xs = Inr ms"
    by (auto simp: py_len_def split: sum.splits list.splits)
  show ?case
  proof (cases "L \<le> n")
    case True
    from Cons.IH [OF ms, of "Suc idx" "acc @ [x]" "int idx" "int idx"]
    obtain index' mi' where
      run: "pad_loop L v (Suc idx) xs (acc @ [x], int idx, int idx)
              = Inr ((acc @ [x]) @ map (pad_row L v) xs, index', mi')" and
      alt: "(index' = int idx \<and> mi' = int idx \<and> (\<forall>n\<in>set ms. n < L)) \<or>
            (\<exists>i<length ms. index' = int (Suc idx + i) \<and> mi' = index' \<and> L \<le> ms ! i \<and>
               (\<forall>j. i < j \<and> j < length ms \<longrightarrow> ms ! j < L))"
      by blast
    have eq: "pad_loop L v idx (x # xs) (acc, index, mi)
              = Inr (acc @ map (pad_row L v) (x # xs), index', mi')"
      using True sx run by (simp add: pad_row_def)
    from alt have "\<exists>i<length ns. index' = int (idx + i) \<and> mi' = index' \<and> L \<le> ns ! i \<and>
               (\<forall>j. i < j \<and> j < length ns \<longrightarrow> ns ! j < L)"
    proof
      assume a: "index' = int idx \<and> mi' = int idx \<and> (\<forall>n\<in>set ms. n < L)"
      have "\<forall>j. 0 < j \<and> j < length ns \<longrightarrow> ns ! j < L"
        using a ns by (auto simp: nth_Cons split: nat.splits)
      then show ?thesis using a True ns by (intro exI [of _ 0]) simp
    next
      assume "\<exists>i<length ms. index' = int (Suc idx + i) \<and> mi' = index' \<and> L \<le> ms ! i \<and>
               (\<forall>j. i < j \<and> j < length ms \<longrightarrow> ms ! j < L)"
      then obtain i where i: "i < length ms" "index' = int (Suc idx + i)" "mi' = index'"
        "L \<le> ms ! i" "\<forall>j. i < j \<and> j < length ms \<longrightarrow> ms ! j < L" by blast
      have "\<forall>j. Suc i < j \<and> j < length ns \<longrightarrow> ns ! j < L"
        using i(5) ns by (auto simp: nth_Cons split: nat.splits)
      then show ?thesis using i ns by (intro exI [of _ "Suc i"]) simp
    qed
    with eq show ?thesis by blast
  next
    case False
    from Cons.IH [OF ms, of "Suc idx" "acc @ [pad_row L v x]" index mi]
    obtain index' mi' where
      run: "pad_loop L v (Suc idx) xs (acc @ [pad_row L v x], index, mi)
              = Inr ((acc @ [pad_row L v x]) @ map (pad_row L v) xs, index', mi')" and
      alt: "(index' = index \<and> mi' = mi \<and> (\<forall>n\<in>set ms. n < L)) \<or>
            (\<exists>i<length ms. index' = int (Suc idx + i) \<and> mi' = index' \<and> L \<le> ms ! i \<and>
               (\<forall>j. i < j \<and> j < length ms \<longrightarrow> ms ! j < L))"
      by blast
    have eq: "pad_loop L v idx (x # xs) (acc, index, mi)
              = Inr (acc @ map (pad_row L v) (x # xs), index', mi')"
      using False sx run by (simp add: pad_row_def Let_def)
    from alt have "(index' = index \<and> mi' = mi \<and> (\<forall>n\<in>set ns. n < L)) \<or>
            (\<exists>i<length ns. index' = int (idx + i) \<and> mi' = index' \<and> L \<le> ns ! i \<and>
               (\<forall>j. i < j \<and> j < length ns \<longrightarrow> ns ! j < L))"
    proof
      assume "index' = index \<and> mi' = mi \<and> (\<forall>n\<in>set ms. n < L)"
      then show ?thesis using False ns by auto
    next
      assume "\<exists>i<length ms. index' = int (Suc idx + i) \<and> mi' = index' \<and> L \<le> ms ! i \<and>
               (\<forall>j. i < j \<and> j < length ms \<longrightarrow> ms ! j < L)"
      then obtain i where i: "i < length ms" "index' = int (Suc idx + i)" "mi' = index'"
        "L \<le> ms ! i" "\<forall>j. i < j \<and> j < length ms \<longrightarrow> ms ! j < L" by blast
      have "\<forall>j. Suc i < j \<and> j < length ns \<longrightarrow> ns ! j < L"
        using i(5) ns by (auto simp: nth_Cons split: nat.splits)
      then have "\<exists>i<length ns. index' = int (idx + i) \<and> mi' = index' \<and> L \<le> ns ! i \<and>
               (\<forall>j. i < j \<and> j < length ns \<longrightarrow> ns ! j < L)"
        using i ns by (intro exI [of _ "Suc i"]) simp
      then show ?thesis by blast
    qed
    with eq show ?thesis by blast
  qed
qed

lemma pad_fails_without_lens: "lens xs = Inl e \<Longrightarrow> pad xs v = Inl e"
  by (simp add: pad_def)

lemma pad_unfold:
  assumes "lens xs = Inr ns" and "ns \<noteq> []"
  shows "\<exists>i<length xs. ns ! i = Max (set ns) \<and> (\<forall>j. i < j \<and> j < length xs \<longrightarrow> ns ! j < Max (set ns)) \<and>
           pad xs v = (case np_array (map (pad_row (Max (set ns)) v) xs) of
                         Inl e \<Rightarrow> Inl e | Inr a \<Rightarrow> Inr (a, int i, int i))"
proof -
  define L where "L = Max (set ns)"
  have mx: "np_max ns = Inr L" using assms(2) by (simp add: np_max_Inr L_def)
  have len: "length ns = length xs" using assms(1) by (simp add: lens_Inr_iff)
  have Lin: "L \<in> set ns" unfolding L_def using assms(2) by (intro Max_in) simp_all
  have Lge: "n \<le> L" if "n \<in> set ns" for n unfolding L_def using that by simp
  from pad_loop_result [OF assms(1), of L v 0 "[]" "- 1" 0]
  obtain index' mi' where
    run: "pad_loop L v 0 xs ([], - 1, 0) = Inr (map (pad_row L v) xs, index', mi')" and
    alt: "(index' = - 1 \<and> mi' = 0 \<and> (\<forall>n\<in>set ns. n < L)) \<or>
          (\<exists>i<length ns. index' = int (0 + i) \<and> mi' = index' \<and> L \<le> ns ! i \<and>
               (\<forall>j. i < j \<and> j < length ns \<longrightarrow> ns ! j < L))"
    by auto
  from alt Lin obtain i where i: "i < length ns" "index' = int i" "mi' = int i" "L \<le> ns ! i"
    "\<forall>j. i < j \<and> j < length ns \<longrightarrow> ns ! j < L"
    by auto
  have "ns ! i = L" using i(1,4) Lge [of "ns ! i"] by simp
  moreover have "pad xs v = (case np_array (map (pad_row L v) xs) of
                         Inl e \<Rightarrow> Inl e | Inr a \<Rightarrow> Inr (a, int i, int i))"
    by (simp add: pad_def assms(1) mx run i)
  ultimately show ?thesis using i len unfolding L_def by auto
qed

lemma shape_pad_row:
  "shape x = n # rest \<Longrightarrow> n \<le> L \<Longrightarrow> shape (pad_row L v x) = L # rest"
  by (simp add: pad_row_def concatenate0_def ones_times_def)

lemma data_pad_row:
  "shape x = n # rest \<Longrightarrow> n \<le> L \<Longrightarrow>
     data (pad_row L v x) = data x @ replicate ((L - n) * prod_list rest) (1 * v)"
  by (simp add: pad_row_def concatenate0_def ones_times_def)

lemma pad_row_longest: "shape x = n # rest \<Longrightarrow> L \<le> n \<Longrightarrow> pad_row L v x = x"
  by (simp add: pad_row_def)

lemma wf_pad_row:
  "wf_array x \<Longrightarrow> shape x = n # rest \<Longrightarrow> n \<le> L \<Longrightarrow> wf_array (pad_row L v x)"
  by (simp add: wf_array_def data_pad_row shape_pad_row add_mult_distrib [symmetric] del: mult_Suc)

lemma concat_block:
  assumes "\<forall>row\<in>set rows. length row = m" and "r < length rows"
  shows "take m (drop (r * m) (concat rows)) = rows ! r"
  using assms
proof (induction rows arbitrary: r)
  case Nil
  then show ?case by simp
next
  case (Cons row rows)
  show ?case
  proof (cases r)
    case 0
    then show ?thesis using Cons.prems by simp
  next
    case (Suc r')
    then show ?thesis using Cons.prems Cons.IH [of r'] by simp
  qed
qed

lemma concat_block_nth:
  assumes "\<forall>row\<in>set rows. length row = m" and "r < length rows" and "j < m"
  shows "concat rows ! (r * m + j) = rows ! r ! j"
  using assms
proof (induction rows arbitrary: r)
  case Nil
  then show ?case by simp
next
  case (Cons row rows)
  show ?case
  proof (cases r)
    case 0
    then show ?thesis using Cons.prems by (simp add: nth_append)
  next
    case (Suc r')
    then show ?thesis using Cons.prems Cons.IH [of r'] by (simp add: nth_append)
  qed
qed

lemma np_array_Inr:
  assumes "np_array rows = Inr a" and "rows \<noteq> []"
  shows "shape a = length rows # shape (hd rows) \<and> data a = concat (map data rows) \<and>
         (\<forall>row\<in>set rows. shape row = shape (hd rows))"
  using assms by (cases rows) (auto simp: np_array_def list_all_iff split: if_splits)

lemma np_array_same_shape:
  assumes "rows \<noteq> []" and "\<forall>row\<in>set rows. shape row = s"
  shows "np_array rows = Inr \<lparr>shape = length rows # s, data = concat (map data rows)\<rparr>"
  using assms by (cases rows) (auto simp: np_array_def list_all_iff)

lemma np_index_stacked:
  assumes "\<forall>row\<in>set rows. shape row = s \<and> wf_array row" and "r < length rows"
  shows "np_index \<lparr>shape = length rows # s, data = concat (map data rows)\<rparr> (int r) = Inr (rows ! r)"
proof -
  have "\<forall>d\<in>set (map data rows). length d = prod_list s"
    using assms(1) by (auto simp: wf_array_def)
  from concat_block [OF this, of r] assms(2)
  have "take (prod_list s) (drop (r * prod_list s) (concat (map data rows))) = data (rows ! r)"
    by simp
  moreover have "shape (rows ! r) = s" using assms by simp
  ultimately show ?thesis using assms(2) by (simp add: np_index_def)
qed


lemma pad_rows:
  assumes "pad xs v = Inr (a, index, max_index)"
  shows "\<exists>ns i. lens xs = Inr ns \<and> ns \<noteq> [] \<and> i < length xs \<and> index = int i \<and> max_index = int i \<and>
           ns ! i = Max (set ns) \<and> (\<forall>j. i < j \<and> j < length xs \<longrightarrow> ns ! j < Max (set ns)) \<and>
           np_array (map (pad_row (Max (set ns)) v) xs) = Inr a"
proof -
  from assms obtain ns where ns: "lens xs = Inr ns"
    by (cases "lens xs") (simp_all add: pad_def)
  have ne: "ns \<noteq> []"
    using assms ns by (auto simp: pad_def np_max_def)
  from pad_unfold [OF ns ne, of v] obtain i where
    i: "i < length xs" "ns ! i = Max (set ns)"
       "\<forall>j. i < j \<and> j < length xs \<longrightarrow> ns ! j < Max (set ns)" and
    p: "pad xs v = (case np_array (map (pad_row (Max (set ns)) v) xs) of
                      Inl e \<Rightarrow> Inl e | Inr a \<Rightarrow> Inr (a, int i, int i))"
    by blast
  from p assms have "np_array (map (pad_row (Max (set ns)) v) xs) = Inr a \<and> index = int i \<and> max_index = int i"
    by (auto split: sum.splits)
  with ns ne i show ?thesis by blast
qed

lemma lens_nth:
  assumes "lens xs = Inr ns" and "j < length xs"
  shows "\<exists>rest. shape (xs ! j) = ns ! j # rest"
proof -
  from assms have "py_len (xs ! j) = Inr (ns ! j)"
    by (simp add: lens_Inr_iff)
  then show ?thesis
    by (cases "shape (xs ! j)") (simp_all add: py_len_def)
qed

lemma ndarray_eq: "shape a = s \<Longrightarrow> data a = d \<Longrightarrow> (a :: 'a ndarray) = \<lparr>shape = s, data = d\<rparr>"
  by simp

text \<open>The rows of the padded block, read back with \<^verbatim>\<open>a[r]\<close>.\<close>

lemma pad_block:
  assumes p: "pad xs v = Inr (a, index, max_index)" and wf: "\<forall>x\<in>set xs. wf_array x"
  shows "\<exists>ns s. lens xs = Inr ns \<and> ns \<noteq> [] \<and> shape a = length xs # s \<and>
           (\<forall>r<length xs. shape (pad_row (Max (set ns)) v (xs ! r)) = s \<and>
                           np_index a (int r) = Inr (pad_row (Max (set ns)) v (xs ! r)))"
proof -
  from pad_rows [OF p] obtain ns where
    ns: "lens xs = Inr ns" "ns \<noteq> []" and
    arr: "np_array (map (pad_row (Max (set ns)) v) xs) = Inr a"
    by blast
  define L where "L = Max (set ns)"
  define rows where "rows = map (pad_row L v) xs"
  have len: "length ns = length xs" using ns(1) by (simp add: lens_Inr_iff)
  then have xne: "xs \<noteq> []" using ns(2) by auto
  then have rne: "rows \<noteq> []" by (simp add: rows_def)
  have "np_array rows = Inr a"
    using arr by (simp add: rows_def L_def)
  from np_array_Inr [OF this rne] have
    sa: "shape a = length rows # shape (hd rows)" and
    da: "data a = concat (map data rows)" and
    same: "\<forall>row\<in>set rows. shape row = shape (hd rows)"
    by simp_all
  have wfr: "wf_array row" if "row \<in> set rows" for row
  proof -
    from that obtain j where j: "j < length xs" "row = pad_row L v (xs ! j)"
      by (auto simp: rows_def in_set_conv_nth)
    from lens_nth [OF ns(1) j(1)] obtain rest where rest: "shape (xs ! j) = ns ! j # rest" ..
    have "ns ! j \<le> L" unfolding L_def using j(1) len by simp
    with wf j rest show ?thesis by (simp add: wf_pad_row)
  qed
  have a: "a = \<lparr>shape = length rows # shape (hd rows), data = concat (map data rows)\<rparr>"
    using sa da by (rule ndarray_eq)
  have "np_index a (int r) = Inr (rows ! r)" if "r < length xs" for r
    unfolding a using same wfr that by (intro np_index_stacked) (simp_all add: rows_def)
  moreover have "shape (rows ! r) = shape (hd rows)" if "r < length xs" for r
    using same that by (simp add: rows_def)
  ultimately show ?thesis
    using ns sa unfolding rows_def L_def by (intro exI [of _ ns] exI [of _ "shape (hd (map (pad_row (Max (set ns)) v) xs))"]) simp
qed

text \<open>
  C4. On an empty collection \<^verbatim>\<open>pad\<close> fails: \<^verbatim>\<open>np.max\<close> of the empty list of lengths
  raises NumPy's \<^verbatim>\<open>ValueError\<close> for a reduction of a zero-size array, which is the
  failure the specification names EmptyInput.
\<close>

theorem pad_empty_input: "pad [] v = Inl ZeroSizeReduction"
  by (simp add: pad_def np_max_def)

text \<open>
  C1 as stated fails: of two sequences of the same (maximal) length \<^verbatim>\<open>pad\<close> returns the
  index of the second, and the x-sequence of the summary curve is the second one.
\<close>

theorem pad_index_not_first:
  "pad [array1 [Finite 0, Finite 1], array1 [Finite 0, Finite 2]] NaN
     = Inr (\<lparr>shape = [2, 2], data = [Finite 0, Finite 1, Finite 0, Finite 2]\<rparr>, 1, 1) \<and>
   map_sum id curve_x
     (plot_with_iqr [array1 [Finite 0, Finite 1], array1 [Finite 0, Finite 2]]
                    [array1 [Finite 5, Finite 6], array1 [Finite 7, Finite 8]])
     = Inr (array1 [Finite 0, Finite 2])"
  by code_simp

lemma plot_with_iqr_Inr:
  assumes "plot_with_iqr xs ys = Inr c"
  shows "\<exists>a index max_index b bi bm.
           pad xs NaN = Inr (a, index, max_index) \<and> pad ys NaN = Inr (b, bi, bm) \<and>
           np_nanmedian b = Inr (curve_median c) \<and>
           np_nanpercentile b 25 = Inr (curve_q25 c) \<and>
           np_nanpercentile b 75 = Inr (curve_q75 c) \<and>
           np_index a index = Inr (curve_x c)"
  using assms by (auto simp: plot_with_iqr_def split: sum.splits prod.splits)

text \<open>
  C1, as the code has it. The loop overwrites \<open>index\<close> at every sequence of maximal
  length, so the index \<^verbatim>\<open>pad\<close> returns is that of the last sequence whose length is
  the maximal length \<open>L\<close>: every sequence is at most as long, and every later one is
  shorter. The row of the padded block at that index, which is the x-sequence of the
  summary curve, is that sequence itself.
\<close>

theorem plot_with_iqr_x_sequence:
  assumes "plot_with_iqr xs ys = Inr c" and "\<forall>x\<in>set xs. wf_array x"
  shows "\<exists>a index max_index i L.
           pad xs NaN = Inr (a, index, max_index) \<and> i < length xs \<and> index = int i \<and>
           py_len (xs ! i) = Inr L \<and>
           (\<forall>j<length xs. \<exists>n. py_len (xs ! j) = Inr n \<and> n \<le> L \<and> (i < j \<longrightarrow> n < L)) \<and>
           np_index a index = Inr (xs ! i) \<and> curve_x c = xs ! i"
proof -
  from plot_with_iqr_Inr [OF assms(1)] obtain a index max_index where
    p: "pad xs NaN = Inr (a, index, max_index)" and x: "np_index a index = Inr (curve_x c)"
    by blast
  from pad_rows [OF p] obtain ns i where
    ns: "lens xs = Inr ns" "ns \<noteq> []" and
    i: "i < length xs" "index = int i" "ns ! i = Max (set ns)"
       "\<forall>j. i < j \<and> j < length xs \<longrightarrow> ns ! j < Max (set ns)"
    by blast
  from pad_block [OF p assms(2)] ns(1) i(1)
  have row: "np_index a (int i) = Inr (pad_row (Max (set ns)) NaN (xs ! i))"
    by auto
  from lens_nth [OF ns(1) i(1)] obtain rest where "shape (xs ! i) = ns ! i # rest" ..
  then have "pad_row (Max (set ns)) NaN (xs ! i) = xs ! i"
    using i(3) by (simp add: pad_row_longest)
  with row have same: "np_index a index = Inr (xs ! i)"
    by (simp add: i(2))
  have len: "length ns = length xs" using ns(1) by (simp add: lens_Inr_iff)
  have all: "\<exists>n. py_len (xs ! j) = Inr n \<and> n \<le> Max (set ns) \<and> (i < j \<longrightarrow> n < Max (set ns))"
    if "j < length xs" for j
  proof -
    have "py_len (xs ! j) = Inr (ns ! j)" using ns(1) that by (simp add: lens_Inr_iff)
    moreover have "ns ! j \<le> Max (set ns)" using that len by simp
    ultimately show ?thesis using i(4) that by blast
  qed
  have "py_len (xs ! i) = Inr (Max (set ns))"
    using ns(1) i(1,3) by (simp add: lens_Inr_iff)
  with p i(1,2) all same x show ?thesis by auto
qed

theorem plot_with_iqr_x_sequence_witness:
  "\<exists>a index max_index i L.
     pad [array1 [Finite 0, Finite 1, Finite 2], array1 [Finite 0, Finite 3, Finite 6], array1 [Finite 9]] NaN
       = Inr (a, index, max_index) \<and>
     i < length [array1 [Finite 0, Finite 1, Finite 2], array1 [Finite 0, Finite 3, Finite 6], array1 [Finite 9]] \<and>
     index = int i \<and> index = 1 \<and> L = 3 \<and>
     np_index a index = Inr (array1 [Finite 0, Finite 3, Finite 6])"
proof -
  define xs where "xs = [array1 [Finite 0, Finite 1, Finite 2], array1 [Finite 0, Finite 3, Finite 6], array1 [Finite 9]]"
  define c where "c = \<lparr>curve_x = array1 [Finite 0, Finite 3, Finite 6],
      curve_median = array1 [Finite 0, Finite 2, Finite 4],
      curve_q25 = array1 [Finite 0, Finite (3 / 2), Finite 3],
      curve_q75 = array1 [Finite (9 / 2), Finite (5 / 2), Finite 5]\<rparr>"
  have run: "plot_with_iqr xs xs = Inr c"
    unfolding xs_def c_def by code_simp
  have wf: "\<forall>x\<in>set xs. wf_array x"
    by (simp add: xs_def wf_array_def array1_def)
  from plot_with_iqr_x_sequence [OF run wf] obtain a index max_index i L where
    r: "pad xs NaN = Inr (a, index, max_index)" "i < length xs" "index = int i"
       "py_len (xs ! i) = Inr L" "np_index a index = Inr (xs ! i)" "curve_x c = xs ! i"
    by blast
  have px: "pad xs NaN = Inr (\<lparr>shape = [3, 3], data = [Finite 0, Finite 1, Finite 2, Finite 0, Finite 3, Finite 6, Finite 9, NaN, NaN]\<rparr>, 1, 1)"
    unfolding xs_def by code_simp
  with r have "index = 1" by simp
  with r(3) have i: "i = 1" by simp
  with r(4) have "L = 3" by (simp add: xs_def py_len_def array1_def)
  with r i \<open>index = 1\<close> show ?thesis
    unfolding xs_def [symmetric] by (intro exI [of _ a] exI [of _ index] exI [of _ max_index] exI [of _ i] exI [of _ L]) (simp add: xs_def)
qed

text \<open>
  C6. For a non-empty collection of arrays that all have a first dimension (\<open>ns\<close> are
  their lengths) and the same further dimensions \<open>rest\<close>, \<^verbatim>\<open>pad\<close> returns a block of
  the shape \<open>N, L, rest\<close> with \<open>L\<close> the maximal length. Its row \<open>r\<close> has the shape
  \<open>L, rest\<close>: the further dimensions are kept, and in row-major order the entries of the
  original sequence (all \<open>ns ! r * prod_list rest\<close> of them) come first, unchanged, and
  every entry after them is the sentinel. The sentinel is computed as \<open>1 * v\<close>, which
  is \<open>v\<close> for not-a-number and for every binary64 value.
\<close>

theorem pad_shape_and_rows:
  assumes "xs \<noteq> []" and "lens xs = Inr ns"
    and "\<forall>x\<in>set xs. wf_array x \<and> tl (shape x) = rest" and "1 * v = v"
  shows "\<exists>a index max_index.
           pad xs v = Inr (a, index, max_index) \<and>
           shape a = length xs # Max (set ns) # rest \<and>
           (\<forall>r<length xs.
              length (data (xs ! r)) = ns ! r * prod_list rest \<and>
              np_index a (int r) =
                Inr \<lparr>shape = Max (set ns) # rest,
                     data = data (xs ! r) @ replicate ((Max (set ns) - ns ! r) * prod_list rest) v\<rparr>)"
proof -
  define L where "L = Max (set ns)"
  define rows where "rows = map (pad_row L v) xs"
  have len: "length ns = length xs" using assms(2) by (simp add: lens_Inr_iff)
  with assms(1) have ne: "ns \<noteq> []" by auto
  have sh: "shape (xs ! r) = ns ! r # rest" and le: "ns ! r \<le> L" if "r < length xs" for r
  proof -
    from lens_nth [OF assms(2) that] obtain t where "shape (xs ! r) = ns ! r # t" ..
    moreover have "tl (shape (xs ! r)) = rest" using assms(3) that by simp
    ultimately show "shape (xs ! r) = ns ! r # rest" by simp
    show "ns ! r \<le> L" unfolding L_def using that len by simp
  qed
  have row: "shape (rows ! r) = L # rest" "wf_array (rows ! r)"
    "rows ! r = \<lparr>shape = L # rest,
                 data = data (xs ! r) @ replicate ((L - ns ! r) * prod_list rest) v\<rparr>"
    "length (data (xs ! r)) = ns ! r * prod_list rest"
    if "r < length xs" for r
  proof -
    have wfx: "wf_array (xs ! r)" using assms(3) that by simp
    show s: "shape (rows ! r) = L # rest"
      using that sh le by (simp add: rows_def shape_pad_row)
    show "wf_array (rows ! r)"
      using that sh le wfx by (simp add: rows_def wf_pad_row)
    have "data (rows ! r) = data (xs ! r) @ replicate ((L - ns ! r) * prod_list rest) v"
      using that sh le assms(4) by (simp add: rows_def data_pad_row)
    with s show "rows ! r = \<lparr>shape = L # rest,
                 data = data (xs ! r) @ replicate ((L - ns ! r) * prod_list rest) v\<rparr>"
      by (rule ndarray_eq)
    show "length (data (xs ! r)) = ns ! r * prod_list rest"
      using wfx sh [OF that] by (simp add: wf_array_def)
  qed
  have all: "\<forall>row\<in>set rows. shape row = L # rest \<and> wf_array row"
    using row(1,2) by (auto simp: rows_def in_set_conv_nth)
  have rne: "rows \<noteq> []" using assms(1) by (simp add: rows_def)
  from np_array_same_shape [OF rne, of "L # rest"] all
  have arr: "np_array rows = Inr \<lparr>shape = length rows # L # rest, data = concat (map data rows)\<rparr>"
    by simp
  from pad_unfold [OF assms(2) ne, of v] obtain i where
    "pad xs v = (case np_array (map (pad_row (Max (set ns)) v) xs) of
                      Inl e \<Rightarrow> Inl e | Inr a \<Rightarrow> Inr (a, int i, int i))"
    by blast
  then have p: "pad xs v = Inr (\<lparr>shape = length rows # L # rest, data = concat (map data rows)\<rparr>, int i, int i)"
    using arr by (simp add: rows_def L_def)
  have "np_index \<lparr>shape = length rows # L # rest, data = concat (map data rows)\<rparr> (int r)
          = Inr \<lparr>shape = L # rest,
                 data = data (xs ! r) @ replicate ((L - ns ! r) * prod_list rest) v\<rparr>"
    if "r < length xs" for r
    using np_index_stacked [OF all, of r] that row(3) [OF that] by (simp add: rows_def)
  with p row(4) show ?thesis
    unfolding L_def [symmetric] by (simp add: rows_def)
qed

theorem pad_shape_and_rows_witness:
  "\<exists>a index max_index.
     pad [\<lparr>shape = [1, 2], data = [1, 2 :: int]\<rparr>, \<lparr>shape = [3, 2], data = [3, 4, 5, 6, 7, 8]\<rparr>,
          \<lparr>shape = [0, 2], data = []\<rparr>] 9 = Inr (a, index, max_index) \<and>
     shape a = [3, 3, 2] \<and>
     np_index a 0 = Inr \<lparr>shape = [3, 2], data = [1, 2, 9, 9, 9, 9]\<rparr> \<and>
     np_index a 1 = Inr \<lparr>shape = [3, 2], data = [3, 4, 5, 6, 7, 8]\<rparr> \<and>
     np_index a 2 = Inr \<lparr>shape = [3, 2], data = [9, 9, 9, 9, 9, 9]\<rparr>"
proof -
  define xs :: "int ndarray list" where
    "xs = [\<lparr>shape = [1, 2], data = [1, 2]\<rparr>, \<lparr>shape = [3, 2], data = [3, 4, 5, 6, 7, 8]\<rparr>,
           \<lparr>shape = [0, 2], data = []\<rparr>]"
  have 1: "xs \<noteq> []" by (simp add: xs_def)
  have 2: "lens xs = Inr [1, 3, 0]" by (simp add: xs_def py_len_def)
  have 3: "\<forall>x\<in>set xs. wf_array x \<and> tl (shape x) = [2]" by (simp add: xs_def wf_array_def)
  have 4: "1 * (9 :: int) = 9" by simp
  have mx: "Max (set [1, 3, 0 :: nat]) = 3" by simp
  from pad_shape_and_rows [OF 1 2 3 4] obtain a index max_index where
    p: "pad xs 9 = Inr (a, index, max_index)" and
    s: "shape a = length xs # Max (set [1, 3, 0]) # [2]" and
    r: "\<forall>r<length xs. np_index a (int r) =
          Inr \<lparr>shape = Max (set [1, 3, 0]) # [2],
               data = data (xs ! r) @ replicate ((Max (set [1, 3, 0]) - [1, 3, 0] ! r) * prod_list [2]) 9\<rparr>"
    by blast
  have "np_index a (int 0) = Inr \<lparr>shape = [3, 2], data = [1, 2, 9, 9, 9, 9]\<rparr>"
    using r [rule_format, of 0] unfolding mx by (simp add: xs_def numeral_eq_Suc)
  moreover have "np_index a (int 1) = Inr \<lparr>shape = [3, 2], data = [3, 4, 5, 6, 7, 8]\<rparr>"
    using r [rule_format, of 1] unfolding mx by (simp add: xs_def)
  moreover have "np_index a (int 2) = Inr \<lparr>shape = [3, 2], data = [9, 9, 9, 9, 9, 9]\<rparr>"
    using r [rule_format, of 2] unfolding mx by (simp add: xs_def numeral_eq_Suc)
  ultimately show ?thesis
    using p s unfolding mx xs_def by (intro exI [of _ a] exI [of _ index] exI [of _ max_index]) simp
qed

section \<open>Properties of the aggregator\<close>

text \<open>
  The columns of the padded block in terms of the sequences: at the flat position \<open>j\<close>
  of a row, the entry of the sequence if it has one there, and the sentinel otherwise.
\<close>

lemma map_over_indices: "map (\<lambda>i. f (xs ! i)) [0..<length xs] = map f xs"
  by (rule nth_equalityI) simp_all

lemma column_pad:
  assumes p: "pad ys v = Inr (b, bi, bm)" and wf: "\<forall>y\<in>set ys. wf_array y" and v: "1 * v = v"
    and s: "shape b = n # rest" and j: "j < prod_list rest"
  shows "column b j = map (\<lambda>y. if j < length (data y) then data y ! j else v) ys"
proof -
  from pad_rows [OF p] obtain ns where
    ns: "lens ys = Inr ns" "ns \<noteq> []" and
    arr: "np_array (map (pad_row (Max (set ns)) v) ys) = Inr b"
    by blast
  define L where "L = Max (set ns)"
  define rows where "rows = map (pad_row L v) ys"
  have len: "length ns = length ys" using ns(1) by (simp add: lens_Inr_iff)
  then have rne: "rows \<noteq> []" using ns(2) by (auto simp: rows_def)
  have "np_array rows = Inr b" using arr by (simp add: rows_def L_def)
  from np_array_Inr [OF this rne] s have
    n: "n = length ys" and
    db: "data b = concat (map data rows)" and
    same: "\<forall>row\<in>set rows. shape row = rest"
    by (simp_all add: rows_def)
  have row: "length (data (rows ! r)) = prod_list rest \<and>
             data (rows ! r) ! j = (if j < length (data (ys ! r)) then data (ys ! r) ! j else v)"
    if r: "r < length ys" for r
  proof -
    from lens_nth [OF ns(1) r] obtain t where t: "shape (ys ! r) = ns ! r # t" ..
    have le: "ns ! r \<le> L" unfolding L_def using r len by simp
    have wfy: "wf_array (ys ! r)" using wf r by simp
    have sr: "shape (rows ! r) = rest" using same r by (simp add: rows_def)
    have "wf_array (rows ! r)" using r wfy t le by (simp add: rows_def wf_pad_row)
    then have l: "length (data (rows ! r)) = prod_list rest"
      using sr by (simp add: wf_array_def)
    have d: "data (rows ! r) = data (ys ! r) @ replicate ((L - ns ! r) * prod_list t) v"
      using r t le v by (simp add: rows_def data_pad_row)
    have "data (rows ! r) ! j = (if j < length (data (ys ! r)) then data (ys ! r) ! j else v)"
      using l j unfolding d by (auto simp: nth_append)
    with l show ?thesis by simp
  qed
  have "column b j = map (\<lambda>i. concat (map data rows) ! (i * prod_list rest + j)) [0..<length ys]"
    by (simp add: column_def s n db)
  also have "\<dots> = map (\<lambda>i. data (rows ! i) ! j) [0..<length ys]"
  proof (rule map_cong [OF refl])
    fix i assume "i \<in> set [0..<length ys]"
    then have i: "i < length (map data rows)" by (simp add: rows_def)
    have "\<forall>d\<in>set (map data rows). length d = prod_list rest"
      using row by (auto simp: rows_def in_set_conv_nth)
    from concat_block_nth [OF this i j] i
    show "concat (map data rows) ! (i * prod_list rest + j) = data (rows ! i) ! j"
      by simp
  qed
  also have "\<dots> = map (\<lambda>i. (\<lambda>y. if j < length (data y) then data y ! j else v) (ys ! i)) [0..<length ys]"
    by (rule map_cong [OF refl]) (simp add: row)
  also have "\<dots> = map (\<lambda>y. if j < length (data y) then data y ! j else v) ys"
    by (rule map_over_indices)
  finally show ?thesis .
qed










end
